theory Spec2Isabelle
  imports Complex_Main
begin

section \<open>Anchor matching: \<open>get_best_anchor\<close>\<close>

text \<open>
  Source: \<^verbatim>\<open>yolo/dataloaders/preprocessing_ops.py\<close>, \<^verbatim>\<open>get_best_anchor\<close>.

  Tensors are lists (rank 1) and lists of rows (rank 2); the sizes of a rank 2 tensor are
  passed along where an operation needs them, because a tensor of shape \<open>[0, A]\<close> and one of
  shape \<open>[A, 0]\<close> are different tensors but a list of rows cannot tell them apart.
  A \<open>float32\<close> value is modelled as the real number it denotes; 0/1 masks and the counts
  summed from them, which the source keeps in floating point, and the \<open>int32\<close> indices are
  modelled as integers. The IoU primitive is a parameter of the model, so that its values
  may be exact or rounded; the rounding of \<open>float32\<close> arithmetic is modelled by \<open>float32\<close>
  below. The function runs eagerly, as the Python is written.
\<close>

datatype error = InvalidArgumentError

text \<open>A box in the centre format of the source: \<open>(x, y, w, h)\<close>, the slice \<^verbatim>\<open>y_true[..., 0:4]\<close>.\<close>

type_synonym box = "real \<times> real \<times> real \<times> real"

text \<open>The literal \<^verbatim>\<open>0.213\<close> of the two comparisons of the source.\<close>

definition acceptance_threshold :: real where
  "acceptance_threshold = 0.213"

subsection \<open>The IoU primitive\<close>

text \<open>
  Modelled from the spec: \<^verbatim>\<open>compute_iou\<close> of \<^verbatim>\<open>yolo/utils/iou_utils.py\<close> is imported by the
  source and is not among the source files. The spec gives the overlap as
  \<open>intersection / (area_box + area_anchor - intersection)\<close>, with 0 for degenerate boxes and
  no division by zero, and the intersection of a box and an anchor that share their centre
  as \<open>min w_box w_anchor * min h_box h_anchor\<close>. \<open>get_best_anchor\<close> passes boxes in centre
  format with their positions, so the intersection here is taken from the extents of the two
  boxes; for two boxes with the same centre and non-negative sizes that is the formula of
  the spec (lemma \<open>compute_iou_same_centre\<close>). It is applied to each pair of boxes of its
  two arguments. \<open>compute_iou\<close> is this formula in exact arithmetic;
  \<open>compute_iou_float32\<close> below is the same formula with every operation rounded to
  \<open>float32\<close>, the type the source computes in.
\<close>

definition compute_iou :: "box \<Rightarrow> box \<Rightarrow> real" where
  "compute_iou box1 box2 =
     (case box1 of (x1, y1, w1, h1) \<Rightarrow> case box2 of (x2, y2, w2, h2) \<Rightarrow>
        let iw = max 0 (min (x1 + w1 / 2) (x2 + w2 / 2) - max (x1 - w1 / 2) (x2 - w2 / 2));
            ih = max 0 (min (y1 + h1 / 2) (y2 + h2 / 2) - max (y1 - h1 / 2) (y2 - h2 / 2));
            intersection = iw * ih;
            union = w1 * h1 + w2 * h2 - intersection
        in if union = 0 then 0 else intersection / union)"

subsection \<open>The IoU primitive in \<open>float32\<close>\<close>

text \<open>
  Rounding of a real to the nearest \<open>float32\<close>, ties to even: 24 significant bits, the unit
  in the last place of the binade \<open>[2 ^ e, 2 ^ (e + 1))\<close> is \<open>2 ^ (e - 23)\<close>, and below
  \<open>2 ^ (- 126)\<close> the spacing of the subnormal numbers. \<open>binade fuel x\<close> is the exponent \<open>e\<close>
  of a positive \<open>x\<close> between \<open>2 ^ (- fuel)\<close> and \<open>2 ^ (fuel + 1)\<close> (lemma \<open>binade_bounds\<close>), a
  range that contains every finite \<open>float32\<close>. Overflow to infinity is not modelled.
\<close>

fun binade :: "nat \<Rightarrow> real \<Rightarrow> int" where
  "binade 0 x = 0"
| "binade (Suc fuel) x =
     (if 2 \<le> x then binade fuel (x / 2) + 1
      else if x < 1 then binade fuel (2 * x) - 1
      else 0)"

definition pow2 :: "int \<Rightarrow> real" where
  "pow2 e = (if 0 \<le> e then 2 ^ nat e else 1 / 2 ^ nat (- e))"




subsection \<open>The tensor operations used\<close>

text \<open>\<^verbatim>\<open>tf.transpose(t, perm=[1, 0])\<close> of a tensor \<open>t\<close> of shape \<open>[n, m]\<close>.\<close>

definition transpose_10 :: "nat \<Rightarrow> nat \<Rightarrow> 'a list list \<Rightarrow> 'a list list" where
  "transpose_10 n m t = map (\<lambda>j. map (\<lambda>i. t ! i ! j) [0..<n]) [0..<m]"

text \<open>
  \<^verbatim>\<open>tf.reduce_max\<close> of a rank 1 tensor. On an empty floating point tensor it returns minus
  infinity, modelled by \<open>None\<close>.
\<close>

fun reduce_max :: "int list \<Rightarrow> int option" where
  "reduce_max [] = None"
| "reduce_max (x # xs) = (case reduce_max xs of None \<Rightarrow> Some x | Some m \<Rightarrow> Some (max x m))"

text \<open>
  \<^verbatim>\<open>tf.math.top_k(input, k, sorted=True)\<close> on a tensor of shape \<open>[rows, n]\<close>: for each row the
  \<open>k\<close> largest entries in descending order and their indices, the lower index first among
  equal entries; an error when the last dimension has fewer than \<open>k\<close> entries.
  \<open>ranking row\<close> is the order of all column indices of one row.
\<close>

definition ranking :: "real list \<Rightarrow> nat list" where
  "ranking row = sort_key (\<lambda>i. - (row ! i)) [0..<length row]"

definition top_k_row :: "real list \<Rightarrow> nat \<Rightarrow> real list \<times> int list" where
  "top_k_row row k =
     (let order = take k (ranking row)
      in (map (\<lambda>i. row ! i) order, map int order))"

definition top_k ::
  "nat \<Rightarrow> real list list \<Rightarrow> int \<Rightarrow> error + (real list list \<times> int list list)" where
  "top_k n input k =
     (if k < 0 \<or> int n < k then Inl InvalidArgumentError
      else Inr (map (\<lambda>row. fst (top_k_row row (nat k))) input,
                map (\<lambda>row. snd (top_k_row row (nat k))) input))"

subsection \<open>The function\<close>

text \<open>
  Lines 196 to 226: the anchors are divided by \<open>width\<close> and \<open>height\<close>; \<open>anchors_t\<close> is the
  tensor of shape \<open>[A, B, 4]\<close> that holds, for anchor \<open>a\<close> and box \<open>b\<close>, the centre of \<open>b\<close>
  followed by the scaled size of \<open>a\<close>; \<open>truth_comp\<close> is \<open>y_true\<close> repeated \<open>A\<close> times;
  \<open>iou_raw\<close>, of shape \<open>[A, B]\<close>, is \<open>compute_iou\<close> of the two. The IoU primitive is a
  parameter. (Reals: a division by a zero \<open>width\<close> is 0 here and infinite or undefined in
  floating point; no statement below depends on it.)
\<close>

definition iou_raw ::
  "(box \<Rightarrow> box \<Rightarrow> real) \<Rightarrow> box list \<Rightarrow> (real \<times> real) list \<Rightarrow> real \<Rightarrow> real \<Rightarrow> real list list" where
  "iou_raw iou y_true anchors width height =
     (let anchors_wh = map (\<lambda>(anchors_x, anchors_y). (anchors_x / width, anchors_y / height)) anchors;
          anchors_t = map (\<lambda>(aw, ah). map (\<lambda>(x, y, w, h). (x, y, aw, ah)) y_true) anchors_wh;
          truth_comp = replicate (length anchors_wh) y_true
      in map2 (map2 iou) truth_comp anchors_t)"

text \<open>
  Lines 228 to 233: \<open>gt_mask\<close>, the transposed mask summed along each row, the maximum of
  the sums, and the test \<^verbatim>\<open>if num_k <= 0: num_k = 1.0\<close> (minus infinity is below 0).
\<close>

definition num_k :: "nat \<Rightarrow> nat \<Rightarrow> real list list \<Rightarrow> int" where
  "num_k A B iou =
     (let gt_mask = map (map (\<lambda>v. if v > acceptance_threshold then 1 else (0::int))) iou
      in case reduce_max (map sum_list (transpose_10 A B gt_mask)) of
           None \<Rightarrow> 1
         | Some m \<Rightarrow> if m \<le> 0 then 1 else m)"

text \<open>
  Lines 239 to 243, for one row: \<^verbatim>\<open>indexes[..., 0]\<close> followed by
  \<^verbatim>\<open>((indexes[..., 1:] + 1) * ind_mask[..., 1:]) - 1\<close>. (\<open>num_k\<close> is at least 1, so a row
  of \<open>indexes\<close> has an entry 0.)
\<close>

definition iou_index_row :: "int list \<Rightarrow> int list \<Rightarrow> int list" where
  "iou_index_row idx msk = idx ! 0 # map2 (\<lambda>i m. (i + 1) * m - 1) (drop 1 idx) (drop 1 msk)"

text \<open>
  Lines 250 to 252: \<^verbatim>\<open>while num_k < 5\<close> appends the column \<open>stack\<close> of \<open>-1\<close> and
  increments \<open>num_k\<close>; the argument \<open>k\<close> is the current value of \<open>num_k\<close>.
\<close>

function pad_loop :: "int list list \<Rightarrow> int \<Rightarrow> int list list" where
  "pad_loop iou_index k =
     (if k < 5 then pad_loop (map (\<lambda>row. row @ [- 1]) iou_index) (k + 1)
      else iou_index)"
  by pat_completeness auto
termination
  by (relation "measure (\<lambda>(iou_index, k). nat (5 - k))") auto

declare pad_loop.simps [simp del]

text \<open>
  Lines 228 to 265, on \<open>iou_raw\<close> of shape \<open>[A, B]\<close> (the anchor matcher of the spec,
  \<open>match_anchors\<close>): \<open>num_k\<close>, \<open>top_k\<close> of the transposed overlaps, the mask of the values
  above the threshold, \<open>iou_index\<close>, the loop, the slice \<^verbatim>\<open>[..., :5]\<close> and the cast of the
  result to \<open>float32\<close>. The \<open>values\<close> computed at lines 255 to 259 are not returned.
\<close>

definition match_anchors :: "nat \<Rightarrow> nat \<Rightarrow> real list list \<Rightarrow> error + real list list" where
  "match_anchors A B iou =
     (let k = num_k A B iou in
      case top_k A (transpose_10 A B iou) k of
        Inl e \<Rightarrow> Inl e
      | Inr (values, indexes) \<Rightarrow>
          let ind_mask = map (map (\<lambda>v. if v > acceptance_threshold then 1 else (0::int))) values;
              iou_index = map2 iou_index_row indexes ind_mask;
              iou_index = pad_loop iou_index k;
              iou_index = map (take 5) iou_index
          in Inr (map (map real_of_int) iou_index))"

definition get_best_anchor ::
  "(box \<Rightarrow> box \<Rightarrow> real) \<Rightarrow> box list \<Rightarrow> (real \<times> real) list \<Rightarrow> real \<Rightarrow> real \<Rightarrow>
     error + real list list" where
  "get_best_anchor iou y_true anchors width height =
     match_anchors (length anchors) (length y_true) (iou_raw iou y_true anchors width height)"

subsection \<open>Notions used to state the properties\<close>

text \<open>
  The overlap matrix with one row per box and one column per anchor, the argument of
  \<open>top_k\<close> in the source: \<^verbatim>\<open>tf.transpose(iou_raw, perm=[1, 0])\<close>.
\<close>

definition overlap ::
  "(box \<Rightarrow> box \<Rightarrow> real) \<Rightarrow> box list \<Rightarrow> (real \<times> real) list \<Rightarrow> real \<Rightarrow> real \<Rightarrow> real list list" where
  "overlap iou y_true anchors width height =
     transpose_10 (length anchors) (length y_true) (iou_raw iou y_true anchors width height)"

text \<open>The overlap of one anchor with one box, as \<open>iou_raw\<close> computes it.\<close>

definition anchor_overlap ::
  "(box \<Rightarrow> box \<Rightarrow> real) \<Rightarrow> real \<Rightarrow> real \<Rightarrow> real \<times> real \<Rightarrow> box \<Rightarrow> real" where
  "anchor_overlap iou width height a b =
     iou b (fst b, fst (snd b), fst a / width, snd a / height)"

text \<open>The number of anchors of one row whose overlap strictly exceeds the threshold.\<close>

definition accepted :: "real list \<Rightarrow> nat" where
  "accepted row = length (filter (\<lambda>v. v > acceptance_threshold) row)"

text \<open>
  The value of ranked slot \<open>s\<close> of one row: the anchor at rank \<open>s\<close>, kept at rank 0 and
  wherever its overlap exceeds the threshold, and \<open>-1\<close> otherwise. \<open>row_slots k row\<close> is the
  row of five slots for a call whose number of ranked slots is \<open>k\<close>.
\<close>

definition slot :: "real list \<Rightarrow> nat \<Rightarrow> int" where
  "slot row s =
     (if s = 0 \<or> row ! (ranking row ! s) > acceptance_threshold then int (ranking row ! s)
      else - 1)"

definition row_slots :: "nat \<Rightarrow> real list \<Rightarrow> int list" where
  "row_slots k row = take 5 (map (slot row) [0..<k] @ replicate (5 - k) (- 1))"


text \<open>
  The number of ranked slots as the spec words it: the maximum over all boxes of the number
  of accepted anchors, with a floor of 1.
\<close>

definition spec_k :: "real list list \<Rightarrow> nat" where
  "spec_k rows = Max (insert 1 (set (map accepted rows)))"

section \<open>Instance padder: \<open>pad_max_instances\<close>\<close>

text \<open>
  Source: \<^verbatim>\<open>yolo/dataloaders/preprocessing_ops.py\<close>, \<^verbatim>\<open>pad_max_instances\<close>.

  A tensor is modelled as the list of its slices along axis 0 (the items); \<open>dim1\<close> is the
  length of that list. The source builds the padding as
  \<^verbatim>\<open>tf.ones(nshape) * pad_value\<close>, where \<open>nshape\<close> is the shape of \<open>value\<close> with its
  first entry replaced by \<open>instances - dim1\<close>: that is \<open>instances - dim1\<close> items, each one
  the constant slice filled with the pad value. The third argument of the model is that
  constant item (for a rank 1 tensor, the pad value itself).

  \<^verbatim>\<open>value[:instances, ...]\<close> is a slice with Python semantics: a negative stop counts
  from the end.
\<close>

definition slice_stop :: "'a list \<Rightarrow> int \<Rightarrow> 'a list" where
  "slice_stop xs stop =
     (if 0 \<le> stop then take (nat stop) xs
      else take (nat (int (length xs) + stop)) xs)"

definition pad_max_instances :: "'a list \<Rightarrow> int \<Rightarrow> 'a \<Rightarrow> 'a list" where
  "pad_max_instances value instances pad_value =
     (let dim1 = int (length value) in
      if dim1 > instances then slice_stop value instances
      else value @ replicate (nat (instances - dim1)) pad_value)"

section \<open>Properties of the anchor matcher\<close>

subsection \<open>The overlap matrix and the number of ranked slots\<close>

lemma transpose_10_map:
  "transpose_10 (length xs) (length ys) (map (\<lambda>x. map (f x) ys) xs) = map (\<lambda>y. map (\<lambda>x. f x y) xs) ys"
  by (auto simp: transpose_10_def intro!: nth_equalityI)

lemma iou_raw_eq:
  "iou_raw iou y_true anchors width height =
     map (\<lambda>a. map (anchor_overlap iou width height a) y_true) anchors"
  by (auto simp: iou_raw_def anchor_overlap_def Let_def split_beta intro!: nth_equalityI)

lemma overlap_eq:
  "overlap iou y_true anchors width height =
     map (\<lambda>b. map (\<lambda>a. anchor_overlap iou width height a b) anchors) y_true"
  by (simp add: overlap_def iou_raw_eq transpose_10_map)

lemma length_overlap: "length (overlap iou y_true anchors width height) = length y_true"
  by (simp add: overlap_eq)

lemma length_overlap_row:
  "row \<in> set (overlap iou y_true anchors width height) \<Longrightarrow> length row = length anchors"
  by (auto simp: overlap_eq)

lemma reduce_max_eq: "reduce_max xs = (if xs = [] then None else Some (Max (set xs)))"
  by (induction xs) (auto simp: max.commute)

lemma sum_mask: "sum_list (map (\<lambda>v. if v > acceptance_threshold then 1 else (0::int)) row) = int (accepted row)"
  unfolding accepted_def by (induction row) auto

lemma mask_transposed:
  "map sum_list (transpose_10 (length anchors) (length y_true)
      (map (map (\<lambda>v. if v > acceptance_threshold then 1 else (0::int))) (iou_raw iou y_true anchors width height)))
   = map (\<lambda>row. int (accepted row)) (overlap iou y_true anchors width height)"
proof -
  let ?g = "\<lambda>v::real. if v > acceptance_threshold then 1 else (0::int)"
  have "map (map ?g) (iou_raw iou y_true anchors width height) =
      map (\<lambda>a. map (\<lambda>b. ?g (anchor_overlap iou width height a b)) y_true) anchors"
    by (simp add: iou_raw_eq comp_def)
  then have "transpose_10 (length anchors) (length y_true)
      (map (map ?g) (iou_raw iou y_true anchors width height)) =
      map (\<lambda>b. map (\<lambda>a. ?g (anchor_overlap iou width height a b)) anchors) y_true"
    by (simp only: transpose_10_map)
  then show ?thesis
    by (simp add: overlap_eq comp_def sum_mask [symmetric])
qed

lemma num_k_unfold:
  "num_k (length anchors) (length y_true) (iou_raw iou y_true anchors width height) =
     (case reduce_max (map (\<lambda>row. int (accepted row)) (overlap iou y_true anchors width height)) of
        None \<Rightarrow> 1
      | Some m \<Rightarrow> if m \<le> 0 then 1 else m)"
  by (simp only: num_k_def Let_def mask_transposed)

lemma floor_one: "0 \<le> m \<Longrightarrow> (if m \<le> 0 then 1 else m) = max 1 (m::int)"
  by (simp add: max_def)

lemma num_k_eq:
  "num_k (length anchors) (length y_true) (iou_raw iou y_true anchors width height) =
     Max (insert 1 ((\<lambda>row. int (accepted row)) ` set (overlap iou y_true anchors width height)))"
proof -
  let ?rows = "overlap iou y_true anchors width height"
  let ?cs = "map (\<lambda>row. int (accepted row)) ?rows"
  have set_cs: "(\<lambda>row. int (accepted row)) ` set ?rows = set ?cs" by simp
  show ?thesis
  proof (cases "?cs = []")
    case True
    then have "reduce_max ?cs = None" by (simp only: reduce_max.simps)
    then have "num_k (length anchors) (length y_true) (iou_raw iou y_true anchors width height) = 1"
      by (simp only: num_k_unfold option.case)
    moreover have "set ?cs = {}" using True by (simp only: set_empty)
    ultimately show ?thesis
      by (simp only: set_cs Max_singleton)
  next
    case False
    then have rm: "reduce_max ?cs = Some (Max (set ?cs))"
      by (simp only: reduce_max_eq if_False)
    have ne: "set ?cs \<noteq> {}" using False by (simp only: set_empty not_False_eq_True)
    have fin: "finite (set ?cs)" by (rule finite_set)
    have ins: "Max (insert 1 (set ?cs)) = max 1 (Max (set ?cs))"
      using fin ne by (rule Max_insert)
    from ne have "\<exists>c. c \<in> set ?cs" by (simp only: ex_in_conv not_False_eq_True)
    then obtain c where c: "c \<in> set ?cs" ..
    then have "0 \<le> c" by auto
    also have "c \<le> Max (set ?cs)" using fin c by (rule Max_ge)
    finally have nonneg: "0 \<le> Max (set ?cs)" .
    have "num_k (length anchors) (length y_true) (iou_raw iou y_true anchors width height) =
        (if Max (set ?cs) \<le> 0 then 1 else Max (set ?cs))"
      by (simp only: num_k_unfold rm option.case)
    also have "\<dots> = max 1 (Max (set ?cs))"
      using nonneg by (rule floor_one)
    finally show ?thesis
      by (simp only: set_cs ins)
  qed
qed

subsection \<open>The ranking of one row\<close>

lemma length_ranking: "length (ranking row) = length row"
  by (simp add: ranking_def)

lemma set_ranking: "set (ranking row) = {0..<length row}"
  by (simp add: ranking_def)

lemma ranking_less: "s < length row \<Longrightarrow> ranking row ! s < length row"
  using nth_mem [of s "ranking row"] by (simp add: length_ranking set_ranking)

lemma ranking_descending:
  assumes "s \<le> s'" "s' < length row"
  shows "row ! (ranking row ! s') \<le> row ! (ranking row ! s)"
proof -
  have "sorted (map (\<lambda>i. - (row ! i)) (ranking row))"
    by (simp add: ranking_def)
  then have "map (\<lambda>i. - (row ! i)) (ranking row) ! s \<le> map (\<lambda>i. - (row ! i)) (ranking row) ! s'"
    using assms by (intro sorted_nth_mono) (simp_all add: length_ranking)
  then show ?thesis
    using assms by (simp add: length_ranking)
qed

lemma ranking_best:
  assumes "i < length row"
  shows "row ! i \<le> row ! (ranking row ! 0)"
proof -
  from assms have "i \<in> set (ranking row)" by (simp add: set_ranking)
  then obtain s where s: "s < length (ranking row)" "ranking row ! s = i"
    by (auto simp: in_set_conv_nth)
  then have "row ! (ranking row ! s) \<le> row ! (ranking row ! 0)"
    by (intro ranking_descending) (simp_all add: length_ranking)
  with s show ?thesis by simp
qed

lemma filter_sorted_takeWhile:
  "sorted (map (\<lambda>i. - f i) xs) \<Longrightarrow>
   filter (\<lambda>i. (t::real) < f i) xs = takeWhile (\<lambda>i. t < f i) xs"
proof (induction xs)
  case Nil
  then show ?case by simp
next
  case (Cons x xs)
  show ?case
  proof (cases "t < f x")
    case True
    with Cons show ?thesis by simp
  next
    case False
    have "\<forall>y \<in> set xs. f y \<le> f x"
      using Cons.prems by auto
    with False have "\<forall>y \<in> set xs. \<not> t < f y" by auto
    then have "filter (\<lambda>i. t < f i) xs = []" by (simp add: filter_empty_conv)
    with False show ?thesis by simp
  qed
qed

lemma accepted_ranking:
  "length (filter (\<lambda>i. acceptance_threshold < row ! i) (ranking row)) = accepted row"
proof -
  have "length (filter (\<lambda>i. acceptance_threshold < row ! i) (ranking row)) =
      length (filter (\<lambda>i. acceptance_threshold < row ! i) [0..<length row])"
    by (simp add: ranking_def filter_sort)
  also have "\<dots> = length (filter (\<lambda>v. acceptance_threshold < v) (map (\<lambda>i. row ! i) [0..<length row]))"
    by (simp add: filter_map comp_def)
  also have "\<dots> = accepted row"
    by (simp add: map_nth accepted_def)
  finally show ?thesis .
qed

lemma ranking_accepted_iff:
  assumes "s < length row"
  shows "acceptance_threshold < row ! (ranking row ! s) \<longleftrightarrow> s < accepted row"
proof -
  let ?P = "\<lambda>i. acceptance_threshold < row ! i"
  let ?xs = "ranking row"
  have srt: "sorted (map (\<lambda>i. - (row ! i)) ?xs)"
    by (simp add: ranking_def)
  have eq: "filter ?P ?xs = takeWhile ?P ?xs"
    using srt by (rule filter_sorted_takeWhile)
  have len: "length (takeWhile ?P ?xs) = accepted row"
    using eq accepted_ranking [of row] by simp
  show ?thesis
  proof
    assume p: "?P (?xs ! s)"
    show "s < accepted row"
    proof (rule ccontr)
      assume "\<not> s < accepted row"
      then have ge: "length (takeWhile ?P ?xs) \<le> s" using len by simp
      have lt: "length (takeWhile ?P ?xs) < length ?xs"
        using ge assms by (simp add: length_ranking)
      have "\<not> ?P (?xs ! length (takeWhile ?P ?xs))"
        using lt by (rule nth_length_takeWhile)
      moreover have "row ! (?xs ! s) \<le> row ! (?xs ! length (takeWhile ?P ?xs))"
        using ge assms by (rule ranking_descending)
      ultimately show False using p by simp
    qed
  next
    assume "s < accepted row"
    then have lt: "s < length (takeWhile ?P ?xs)" using len by simp
    then have "takeWhile ?P ?xs ! s = ?xs ! s"
      by (rule takeWhile_nth)
    moreover have "takeWhile ?P ?xs ! s \<in> set (takeWhile ?P ?xs)"
      using lt by (rule nth_mem)
    ultimately show "?P (?xs ! s)"
      by (auto dest: set_takeWhileD)
  qed
qed

lemma accepted_le: "accepted row \<le> length row"
  by (simp add: accepted_def)


subsection \<open>The slots of one row and of the whole call\<close>

lemma top_k_ok:
  "0 \<le> k \<Longrightarrow> k \<le> int n \<Longrightarrow>
   top_k n input k = Inr (map (\<lambda>row. fst (top_k_row row (nat k))) input,
                          map (\<lambda>row. snd (top_k_row row (nat k))) input)"
  by (simp add: top_k_def)

lemma top_k_error: "int n < k \<Longrightarrow> top_k n input k = Inl InvalidArgumentError"
  by (simp add: top_k_def)

lemma map2_same: "map2 f (map a xs) (map b xs) = map (\<lambda>x. f (a x) (b x)) xs"
  by (induction xs) simp_all

lemma pad_loop_eq: "pad_loop m k = map (\<lambda>r. r @ replicate (nat (5 - k)) (- 1)) m"
proof (induction m k rule: pad_loop.induct)
  case (1 m k)
  show ?case
  proof (cases "k < 5")
    case True
    then have suc: "nat (5 - k) = Suc (nat (5 - (k + 1)))" by linarith
    have "pad_loop m k = pad_loop (map (\<lambda>row. row @ [- 1]) m) (k + 1)"
      using True by (subst pad_loop.simps) simp
    also have "\<dots> = map (\<lambda>r. r @ replicate (nat (5 - (k + 1))) (- 1)) (map (\<lambda>row. row @ [- 1]) m)"
      using True by (rule "1.IH")
    also have "\<dots> = map (\<lambda>r. r @ replicate (nat (5 - k)) (- 1)) m"
      by (simp only: suc map_map comp_def append_assoc append_Cons append_Nil replicate_Suc)
    finally show ?thesis .
  next
    case False
    then have "nat (5 - k) = 0" by simp
    moreover have "pad_loop m k = m"
      using False by (subst pad_loop.simps) simp
    ultimately show ?thesis by simp
  qed
qed

lemma top_k_row_eq:
  "top_k_row row k = (map (\<lambda>i. row ! i) (take k (ranking row)), map int (take k (ranking row)))"
  by (simp add: top_k_row_def Let_def)

lemma iou_index_row_eq:
  assumes k: "1 \<le> k" "k \<le> length row"
  shows "iou_index_row (snd (top_k_row row k))
           (map (\<lambda>v. if v > acceptance_threshold then 1 else 0) (fst (top_k_row row k))) =
         map (slot row) [0..<k]"
proof (rule nth_equalityI)
  let ?idx = "snd (top_k_row row k)"
  let ?msk = "map (\<lambda>v. if v > acceptance_threshold then 1 else (0::int)) (fst (top_k_row row k))"
  have len_idx: "length ?idx = k" and len_msk: "length (fst (top_k_row row k)) = k"
    using k by (simp_all add: top_k_row_eq length_ranking)
  show len: "length (iou_index_row ?idx ?msk) = length (map (slot row) [0..<k])"
    using k by (simp add: iou_index_row_def len_idx len_msk)
  fix s
  assume "s < length (iou_index_row ?idx ?msk)"
  with len have s: "s < k" by simp
  have idx: "?idx ! s = int (ranking row ! s)"
    using s k by (simp add: top_k_row_eq length_ranking)
  have msk: "?msk ! s = (if row ! (ranking row ! s) > acceptance_threshold then 1 else 0)"
    using s k by (simp add: top_k_row_eq length_ranking)
  show "iou_index_row ?idx ?msk ! s = map (slot row) [0..<k] ! s"
  proof (cases s)
    case 0
    with s idx show ?thesis
      by (simp add: iou_index_row_def slot_def)
  next
    case (Suc s')
    have "iou_index_row ?idx ?msk ! s = (?idx ! s + 1) * ?msk ! s - 1"
      using s Suc by (simp add: iou_index_row_def len_idx len_msk)
    also have "\<dots> = (int (ranking row ! s) + 1) *
        (if row ! (ranking row ! s) > acceptance_threshold then 1 else 0) - 1"
      by (simp only: idx msk)
    also have "\<dots> = slot row s"
      using Suc by (simp add: slot_def)
    finally show ?thesis using s by simp
  qed
qed

lemma num_k_bounds:
  assumes "anchors \<noteq> []"
  shows "1 \<le> num_k (length anchors) (length y_true) (iou_raw iou y_true anchors width height)"
    and "num_k (length anchors) (length y_true) (iou_raw iou y_true anchors width height) \<le> int (length anchors)"
proof -
  let ?rows = "overlap iou y_true anchors width height"
  let ?S = "(\<lambda>row. int (accepted row)) ` set ?rows"
  have fin: "finite (insert 1 ?S)" by simp
  show "1 \<le> num_k (length anchors) (length y_true) (iou_raw iou y_true anchors width height)"
    unfolding num_k_eq using fin by (intro Max_ge) simp_all
  have "\<forall>c \<in> insert 1 ?S. c \<le> int (length anchors)"
  proof
    fix c assume "c \<in> insert 1 ?S"
    then consider "c = 1" | row where "row \<in> set ?rows" "c = int (accepted row)" by blast
    then show "c \<le> int (length anchors)"
    proof cases
      case 1
      with assms show ?thesis by (cases anchors) simp_all
    next
      case 2
      then show ?thesis
        using accepted_le [of row] length_overlap_row [of row] by simp
    qed
  qed
  then show "num_k (length anchors) (length y_true) (iou_raw iou y_true anchors width height) \<le> int (length anchors)"
    unfolding num_k_eq using fin by (subst Max_le_iff) blast+
qed

lemma accepted_le_num_k:
  assumes "row \<in> set (overlap iou y_true anchors width height)"
  shows "int (accepted row) \<le> num_k (length anchors) (length y_true) (iou_raw iou y_true anchors width height)"
  unfolding num_k_eq using assms by (intro Max_ge) simp_all

lemma get_best_anchor_rows:
  assumes "anchors \<noteq> []"
  shows "get_best_anchor iou y_true anchors width height =
     Inr (map (\<lambda>row. map real_of_int
                 (row_slots (nat (num_k (length anchors) (length y_true)
                    (iou_raw iou y_true anchors width height))) row))
              (overlap iou y_true anchors width height))"
proof -
  let ?A = "length anchors" and ?B = "length y_true"
  let ?iou = "iou_raw iou y_true anchors width height"
  let ?rows = "overlap iou y_true anchors width height"
  let ?k = "num_k ?A ?B ?iou"
  let ?g = "\<lambda>v. if v > acceptance_threshold then 1 else (0::int)"
  let ?U = "\<lambda>row. iou_index_row (snd (top_k_row row (nat ?k))) (map ?g (fst (top_k_row row (nat ?k))))"
  have k1: "1 \<le> ?k" and kA: "?k \<le> int ?A"
    using assms by (rule num_k_bounds)+
  have topk: "top_k ?A (transpose_10 ?A ?B ?iou) ?k =
      Inr (map (\<lambda>row. fst (top_k_row row (nat ?k))) ?rows,
           map (\<lambda>row. snd (top_k_row row (nat ?k))) ?rows)"
    unfolding overlap_def using k1 kA by (intro top_k_ok) simp_all
  have "get_best_anchor iou y_true anchors width height =
      Inr (map (map real_of_int) (map (take 5) (pad_loop
        (map2 iou_index_row (map (\<lambda>row. snd (top_k_row row (nat ?k))) ?rows)
           (map (map ?g) (map (\<lambda>row. fst (top_k_row row (nat ?k))) ?rows))) ?k)))"
    by (simp only: get_best_anchor_def match_anchors_def Let_def topk sum.case prod.case)
  also have "map2 iou_index_row (map (\<lambda>row. snd (top_k_row row (nat ?k))) ?rows)
           (map (map ?g) (map (\<lambda>row. fst (top_k_row row (nat ?k))) ?rows)) = map ?U ?rows"
    by (simp only: map_map comp_def map2_same)
  also have "map ?U ?rows = map (\<lambda>row. map (slot row) [0..<nat ?k]) ?rows"
  proof (rule map_cong [OF refl])
    fix row assume "row \<in> set ?rows"
    then have "length row = ?A" by (rule length_overlap_row)
    with k1 kA have "1 \<le> nat ?k" "nat ?k \<le> length row" by simp_all
    then show "?U row = map (slot row) [0..<nat ?k]"
      by (rule iou_index_row_eq)
  qed
  also have "map (map real_of_int) (map (take 5) (pad_loop (map (\<lambda>row. map (slot row) [0..<nat ?k]) ?rows) ?k))
      = map (\<lambda>row. map real_of_int (row_slots (nat ?k) row)) ?rows"
  proof -
    have "nat (5 - ?k) = 5 - nat ?k" using k1 by simp
    then show ?thesis
      by (simp add: pad_loop_eq row_slots_def comp_def)
  qed
  finally show ?thesis .
qed

lemma get_best_anchor_no_anchors:
  "get_best_anchor iou y_true [] width height = Inl InvalidArgumentError"
proof -
  have "num_k 0 (length y_true) [] = 1"
    by (simp add: num_k_def transpose_10_def reduce_max_eq Let_def)
  then show ?thesis
    by (simp add: get_best_anchor_def match_anchors_def iou_raw_def top_k_def)
qed

lemma length_row_slots: "length (row_slots k row) = 5"
  by (simp add: row_slots_def)

lemma row_slots_nth:
  "s < 5 \<Longrightarrow> row_slots k row ! s = (if s < k then slot row s else - 1)"
  by (simp add: row_slots_def nth_append)

subsection \<open>The result of a call, slot by slot\<close>

lemma length_overlap_nth:
  "j < length y_true \<Longrightarrow> length (overlap iou y_true anchors width height ! j) = length anchors"
  by (simp add: overlap_eq)

lemma get_best_anchor_Inr_anchors:
  "get_best_anchor iou y_true anchors width height = Inr out \<Longrightarrow> anchors \<noteq> []"
  using get_best_anchor_no_anchors [of iou y_true width height] by auto

lemma get_best_anchor_shape:
  assumes "get_best_anchor iou y_true anchors width height = Inr out"
  shows "length out = length y_true" and "j < length y_true \<Longrightarrow> length (out ! j) = 5"
proof -
  have ne: "anchors \<noteq> []" using assms by (rule get_best_anchor_Inr_anchors)
  have out: "out = map (\<lambda>row. map real_of_int
      (row_slots (nat (num_k (length anchors) (length y_true)
         (iou_raw iou y_true anchors width height))) row))
      (overlap iou y_true anchors width height)"
    using assms get_best_anchor_rows [OF ne, of iou y_true width height] by simp
  show "length out = length y_true"
    by (simp add: out length_overlap)
  show "j < length y_true \<Longrightarrow> length (out ! j) = 5"
    by (simp add: out length_overlap length_row_slots)
qed

lemma get_best_anchor_slot:
  assumes "get_best_anchor iou y_true anchors width height = Inr out"
    and j: "j < length y_true" and s: "s < 5"
  shows "out ! j ! s =
     (if int s < num_k (length anchors) (length y_true) (iou_raw iou y_true anchors width height)
      then real_of_int (slot (overlap iou y_true anchors width height ! j) s)
      else - 1)"
proof -
  let ?rows = "overlap iou y_true anchors width height"
  let ?k = "num_k (length anchors) (length y_true) (iou_raw iou y_true anchors width height)"
  have ne: "anchors \<noteq> []" using assms(1) by (rule get_best_anchor_Inr_anchors)
  have out: "out = map (\<lambda>row. map real_of_int (row_slots (nat ?k) row)) ?rows"
    using assms(1) get_best_anchor_rows [OF ne, of iou y_true width height] by simp
  have row: "out ! j = map real_of_int (row_slots (nat ?k) (?rows ! j))"
    using j by (simp add: out length_overlap)
  have "out ! j ! s = real_of_int (row_slots (nat ?k) (?rows ! j) ! s)"
    using s by (simp only: row) (simp add: length_row_slots)
  also have "\<dots> = (if int s < ?k then real_of_int (slot (?rows ! j) s) else - 1)"
  proof -
    have "s < nat ?k \<longleftrightarrow> int s < ?k" by linarith
    then show ?thesis
      using s by (simp add: row_slots_nth)
  qed
  finally show ?thesis .
qed

lemma slot_cases:
  assumes "s < length row"
  shows "slot row s = (if s < max 1 (accepted row) then int (ranking row ! s) else - 1)"
proof -
  have "(s = 0 \<or> acceptance_threshold < row ! (ranking row ! s)) \<longleftrightarrow> s < max 1 (accepted row)"
    using ranking_accepted_iff [OF assms] by auto
  then show ?thesis
    by (simp only: slot_def)
qed

lemma spec_k_eq:
  "num_k (length anchors) (length y_true) (iou_raw iou y_true anchors width height) =
     int (spec_k (overlap iou y_true anchors width height))"
proof -
  let ?rows = "overlap iou y_true anchors width height"
  let ?S = "insert 1 (set (map accepted ?rows))"
  have "int (Max ?S) = Max (int ` ?S)"
    by (intro mono_Max_commute) (simp_all add: mono_def)
  also have "int ` ?S = insert 1 ((\<lambda>row. int (accepted row)) ` set ?rows)"
    by (simp add: image_image)
  finally show ?thesis
    by (simp only: num_k_eq spec_k_def)
qed


subsection \<open>The five slots of an assignment\<close>

text \<open>
  Claim C1, amended. For every list of boxes and every non-empty anchor catalog,
  \<open>get_best_anchor\<close> returns no error, whatever the number \<open>k\<close> of ranked slots of the call
  is, and each box has exactly 5 slots. Slot \<open>s\<close> with \<open>s \<ge> k\<close> is \<open>-1\<close> (the padding when
  \<open>k < 5\<close>); slot \<open>s\<close> with \<open>s < k\<close> is ranked slot \<open>s\<close> of the box, so that for \<open>k > 5\<close> the
  five slots are the first five ranked slots and the ranked slots from 5 on are dropped by
  the slice \<^verbatim>\<open>iou_index[..., :5]\<close>.
\<close>

theorem get_best_anchor_five_slots:
  fixes iou y_true anchors width height
  defines "k \<equiv> num_k (length anchors) (length y_true) (iou_raw iou y_true anchors width height)"
  assumes "anchors \<noteq> []"
  shows "\<exists>out. get_best_anchor iou y_true anchors width height = Inr out
           \<and> length out = length y_true
           \<and> (\<forall>j < length y_true. length (out ! j) = 5
                \<and> (\<forall>s < 5. k \<le> int s \<longrightarrow> out ! j ! s = - 1)
                \<and> (\<forall>s < 5. int s < k \<longrightarrow>
                      out ! j ! s =
                        real_of_int (slot (overlap iou y_true anchors width height ! j) s)))"
proof -
  from assms(2) obtain out where out: "get_best_anchor iou y_true anchors width height = Inr out"
    using get_best_anchor_rows [of anchors iou y_true width height] by blast
  have "length out = length y_true"
    using out by (rule get_best_anchor_shape)
  moreover have "length (out ! j) = 5" if "j < length y_true" for j
    using out that by (rule get_best_anchor_shape)
  moreover have "out ! j ! s = - 1" if "j < length y_true" "s < 5" "k \<le> int s" for j s
    using get_best_anchor_slot [OF out that(1,2)] that(3) by (simp add: k_def)
  moreover have "out ! j ! s = real_of_int (slot (overlap iou y_true anchors width height ! j) s)"
    if "j < length y_true" "s < 5" "int s < k" for j s
    using get_best_anchor_slot [OF out that(1,2)] that(3) by (simp add: k_def)
  ultimately show ?thesis using out by blast
qed

theorem get_best_anchor_five_slots_witness:
  "([(1, 1/4), (1, 1), (1, 1/2), (3/4, 1), (1/2, 1), (1, 3/4)] :: (real \<times> real) list) \<noteq> []
   \<and> get_best_anchor compute_iou [(1/2, 1/2, 1, 1)]
        [(1, 1/4), (1, 1), (1, 1/2), (3/4, 1), (1/2, 1), (1, 3/4)] 1 1 = Inr [[1, 3, 5, 2, 4]]
   \<and> get_best_anchor compute_iou [(1/2, 1/2, 1, 1)] [(1, 1/8), (1, 1), (1, 1/2)] 1 1 =
        Inr [[1, 2, - 1, - 1, - 1]]"
proof -
  let ?ys = "[(1/2, 1/2, 1, 1)] :: box list"
  let ?as = "[(1, 1/4), (1, 1), (1, 1/2), (3/4, 1), (1/2, 1), (1, 3/4)] :: (real \<times> real) list"
  have ne: "?as \<noteq> []" by simp
  from get_best_anchor_five_slots [OF ne, of compute_iou ?ys 1 1]
  obtain out where out: "get_best_anchor compute_iou ?ys ?as 1 1 = Inr out" by blast
  have six: "get_best_anchor compute_iou ?ys ?as 1 1 = Inr [[1, 3, 5, 2, 4]]"
    by code_simp
  have three: "get_best_anchor compute_iou ?ys [(1, 1/8), (1, 1), (1, 1/2)] 1 1 =
      Inr [[1, 2, - 1, - 1, - 1]]"
    by code_simp
  from ne out six three show ?thesis by simp
qed

text \<open>
  The claim C1 as stated asks for a runtime error when \<open>k\<close> exceeds 5. One box of size
  \<open>1 \<times> 1\<close> and six anchors whose overlaps with it are \<open>1/4, 1, 1/2, 3/4, 1/2, 3/4\<close>, all
  above the threshold, give \<open>k = 6\<close>, and the call returns the first five ranked anchors.
\<close>

theorem get_best_anchor_overflow_counterexample:
  "5 < num_k 6 1 (iou_raw compute_iou [(1/2, 1/2, 1, 1)]
         [(1, 1/4), (1, 1), (1, 1/2), (3/4, 1), (1/2, 1), (1, 3/4)] 1 1)
   \<and> get_best_anchor compute_iou [(1/2, 1/2, 1, 1)]
        [(1, 1/4), (1, 1), (1, 1/2), (3/4, 1), (1/2, 1), (1, 3/4)] 1 1 = Inr [[1, 3, 5, 2, 4]]"
  by code_simp

text \<open>
  Claim C2. For every list of boxes and every non-empty anchor catalog, slot 0 of the
  assignment of each box is the index of an anchor of the catalog whose overlap with the
  box is the highest of the row; it is never \<open>-1\<close>, whether or not that overlap exceeds the
  threshold.
\<close>

theorem get_best_anchor_slot0:
  assumes "anchors \<noteq> []"
  shows "\<exists>out. get_best_anchor iou y_true anchors width height = Inr out
           \<and> length out = length y_true
           \<and> (\<forall>j < length y_true. \<exists>i < length anchors.
                  out ! j ! 0 = real i \<and> out ! j ! 0 \<noteq> - 1
                  \<and> (\<forall>i' < length anchors.
                        overlap iou y_true anchors width height ! j ! i'
                          \<le> overlap iou y_true anchors width height ! j ! i))"
proof -
  let ?rows = "overlap iou y_true anchors width height"
  from assms obtain out where out: "get_best_anchor iou y_true anchors width height = Inr out"
    using get_best_anchor_rows [of anchors iou y_true width height] by blast
  have len: "length out = length y_true"
    using out by (rule get_best_anchor_shape)
  have "\<exists>i < length anchors. out ! j ! 0 = real i \<and> out ! j ! 0 \<noteq> - 1
          \<and> (\<forall>i' < length anchors. ?rows ! j ! i' \<le> ?rows ! j ! i)"
    if j: "j < length y_true" for j
  proof -
    let ?row = "?rows ! j"
    let ?i = "ranking ?row ! 0"
    have lrow: "length ?row = length anchors" using j by (rule length_overlap_nth)
    have pos: "0 < length ?row" using assms lrow by simp
    have k1: "1 \<le> num_k (length anchors) (length y_true) (iou_raw iou y_true anchors width height)"
      using assms by (rule num_k_bounds)
    have "out ! j ! 0 = real_of_int (slot ?row 0)"
      using get_best_anchor_slot [OF out j, of 0] k1 by simp
    then have val: "out ! j ! 0 = real ?i" by (simp add: slot_def)
    have "?i < length anchors" using ranking_less [OF pos] lrow by simp
    moreover have "out ! j ! 0 \<noteq> - 1" using val by simp
    moreover have "\<forall>i' < length anchors. ?row ! i' \<le> ?row ! ?i"
      using ranking_best [of _ ?row] lrow by simp
    ultimately show ?thesis using val by blast
  qed
  with out len show ?thesis by blast
qed

theorem get_best_anchor_slot0_witness:
  "([(1, 1/8), (1, 1), (1, 1/2)] :: (real \<times> real) list) \<noteq> []
   \<and> overlap compute_iou [(0, 0, 1/8, 1)] [(1, 1/8), (1, 1), (1, 1/2)] 1 1 = [[1/15, 1/8, 1/9]]
   \<and> get_best_anchor compute_iou [(0, 0, 1/8, 1)] [(1, 1/8), (1, 1), (1, 1/2)] 1 1 =
        Inr [[1, - 1, - 1, - 1, - 1]]"
proof -
  let ?ys = "[(0, 0, 1/8, 1)] :: box list"
  let ?as = "[(1, 1/8), (1, 1), (1, 1/2)] :: (real \<times> real) list"
  have ne: "?as \<noteq> []" by simp
  from get_best_anchor_slot0 [OF ne, of compute_iou ?ys 1 1]
  obtain out where out: "get_best_anchor compute_iou ?ys ?as 1 1 = Inr out" by blast
  have ov: "overlap compute_iou ?ys ?as 1 1 = [[1/15, 1/8, 1/9]]"
    by code_simp
  have res: "get_best_anchor compute_iou ?ys ?as 1 1 = Inr [[1, - 1, - 1, - 1, - 1]]"
    by code_simp
  from ne out ov res show ?thesis by simp
qed

text \<open>
  Claim C3. The number of ranked slots \<open>num_k\<close> of a call is the maximum, over all boxes
  passed together, of the number of anchors whose overlap strictly exceeds the threshold,
  with a floor of 1 (\<open>spec_k\<close>); and the assignment of every box of the call is ranked with
  this one number.
\<close>

theorem num_k_batch_wide:
  fixes iou y_true anchors width height
  defines "rows \<equiv> overlap iou y_true anchors width height"
  shows "num_k (length anchors) (length y_true) (iou_raw iou y_true anchors width height) =
           int (spec_k rows)
       \<and> (anchors \<noteq> [] \<longrightarrow>
            get_best_anchor iou y_true anchors width height =
              Inr (map (\<lambda>row. map real_of_int (row_slots (spec_k rows) row)) rows))"
proof (intro conjI impI)
  show k: "num_k (length anchors) (length y_true) (iou_raw iou y_true anchors width height) =
      int (spec_k rows)"
    unfolding rows_def by (rule spec_k_eq)
  assume "anchors \<noteq> []"
  then show "get_best_anchor iou y_true anchors width height =
      Inr (map (\<lambda>row. map real_of_int (row_slots (spec_k rows) row)) rows)"
    using get_best_anchor_rows [of anchors iou y_true width height]
    by (simp add: k rows_def [symmetric])
qed

theorem num_k_batch_wide_witness:
  "([(1, 1/8), (1, 1), (1, 1/2)] :: (real \<times> real) list) \<noteq> []
   \<and> overlap compute_iou [(1/2, 1/2, 1, 1), (0, 0, 1/8, 1)] [(1, 1/8), (1, 1), (1, 1/2)] 1 1 =
        [[1/8, 1, 1/2], [1/15, 1/8, 1/9]]
   \<and> num_k 3 2 (iou_raw compute_iou [(1/2, 1/2, 1, 1), (0, 0, 1/8, 1)]
        [(1, 1/8), (1, 1), (1, 1/2)] 1 1) = 2
   \<and> get_best_anchor compute_iou [(1/2, 1/2, 1, 1), (0, 0, 1/8, 1)]
        [(1, 1/8), (1, 1), (1, 1/2)] 1 1 =
        Inr [[1, 2, - 1, - 1, - 1], [1, - 1, - 1, - 1, - 1]]"
proof -
  let ?ys = "[(1/2, 1/2, 1, 1), (0, 0, 1/8, 1)] :: box list"
  let ?as = "[(1, 1/8), (1, 1), (1, 1/2)] :: (real \<times> real) list"
  have ne: "?as \<noteq> []" by simp
  have ov: "overlap compute_iou ?ys ?as 1 1 = [[1/8, 1, 1/2], [1/15, 1/8, 1/9]]"
    by code_simp
  have sk: "spec_k [[1/8, 1, 1/2], [1/15, 1/8, 1/9]] = 2"
    by code_simp
  have rs: "map (\<lambda>row. map real_of_int (row_slots 2 row)) [[1/8, 1, 1/2], [1/15, 1/8, 1/9]] =
      [[1, 2, - 1, - 1, - 1], [1, - 1, - 1, - 1, - 1]]"
    by code_simp
  from num_k_batch_wide [of ?as ?ys compute_iou 1 1] ne
  have "num_k (length ?as) (length ?ys) (iou_raw compute_iou ?ys ?as 1 1) =
        int (spec_k (overlap compute_iou ?ys ?as 1 1))"
    and "get_best_anchor compute_iou ?ys ?as 1 1 =
        Inr (map (\<lambda>row. map real_of_int (row_slots (spec_k (overlap compute_iou ?ys ?as 1 1)) row))
          (overlap compute_iou ?ys ?as 1 1))"
    by blast+
  then have "num_k (length ?as) (length ?ys) (iou_raw compute_iou ?ys ?as 1 1) = int 2"
    and res: "get_best_anchor compute_iou ?ys ?as 1 1 =
        Inr [[1, 2, - 1, - 1, - 1], [1, - 1, - 1, - 1, - 1]]"
    by (simp_all only: ov sk rs)
  moreover have "length ?as = 3" and "length ?ys = 2" by simp_all
  ultimately have "num_k 3 2 (iou_raw compute_iou ?ys ?as 1 1) = 2"
    by (simp only: of_nat_numeral)
  with ne ov res show ?thesis by blast
qed

subsection \<open>Accepted anchors and sentinels\<close>

text \<open>
  Claim C4, amended. For a box whose number of anchors above the threshold is
  \<open>k_accepted < 5\<close>, with \<open>n = max 1 k_accepted\<close>: the assignment is the first \<open>n\<close> anchors of
  the ranking of the box followed by \<open>5 - n\<close> sentinels \<open>-1\<close>; the number of slots other
  than \<open>-1\<close> is \<open>n\<close>, that is \<open>max k_accepted 1\<close>; every anchor in a slot from 1 on has an
  overlap strictly above the threshold; and the overlaps of the anchors in the slots are in
  descending order.
\<close>

theorem get_best_anchor_accepted_slots:
  fixes iou y_true anchors width height j
  defines "row \<equiv> overlap iou y_true anchors width height ! j"
  defines "n \<equiv> max 1 (accepted row)"
  assumes ne: "anchors \<noteq> []" and j: "j < length y_true" and few: "accepted row < 5"
  shows "\<exists>out. get_best_anchor iou y_true anchors width height = Inr out
           \<and> out ! j = map real (take n (ranking row)) @ replicate (5 - n) (- 1)
           \<and> length (filter (\<lambda>v. v \<noteq> - 1) (out ! j)) = n
           \<and> (\<forall>s. 1 \<le> s \<and> s < n \<longrightarrow> acceptance_threshold < row ! (ranking row ! s))
           \<and> (\<forall>s s'. s \<le> s' \<and> s' < n \<longrightarrow>
                 row ! (ranking row ! s') \<le> row ! (ranking row ! s))"
proof -
  let ?k = "num_k (length anchors) (length y_true) (iou_raw iou y_true anchors width height)"
  from ne obtain out where out: "get_best_anchor iou y_true anchors width height = Inr out"
    using get_best_anchor_rows [of anchors iou y_true width height] by blast
  have lrow: "length row = length anchors"
    unfolding row_def using j by (rule length_overlap_nth)
  have k1: "1 \<le> ?k" and kA: "?k \<le> int (length anchors)"
    using ne by (rule num_k_bounds)+
  have "row \<in> set (overlap iou y_true anchors width height)"
    unfolding row_def using j by (simp add: length_overlap)
  then have "int (accepted row) \<le> ?k" by (rule accepted_le_num_k)
  with k1 have nk: "int n \<le> ?k" by (simp add: n_def)
  with kA have nA: "n \<le> length row" by (simp add: lrow)
  have n5: "n < 5" and n1: "1 \<le> n" using few by (simp_all add: n_def)
  have slot_s: "out ! j ! s = (if s < n then real (ranking row ! s) else - 1)" if s: "s < 5" for s
  proof (cases "int s < ?k")
    case True
    then have "s < length row" using kA lrow by simp
    then have "slot row s = (if s < n then int (ranking row ! s) else - 1)"
      unfolding n_def by (rule slot_cases)
    then show ?thesis
      using get_best_anchor_slot [OF out j s] True by (simp add: row_def)
  next
    case False
    with nk have "\<not> s < n" by simp
    then show ?thesis
      using get_best_anchor_slot [OF out j s] False by simp
  qed
  have row_eq: "out ! j = map real (take n (ranking row)) @ replicate (5 - n) (- 1)"
  proof (rule nth_equalityI)
    show len: "length (out ! j) =
        length (map real (take n (ranking row)) @ replicate (5 - n) (- 1))"
      using get_best_anchor_shape(2) [OF out j] nA n5 by (simp add: length_ranking)
    fix s assume "s < length (out ! j)"
    then have s: "s < 5" using get_best_anchor_shape(2) [OF out j] by simp
    show "out ! j ! s = (map real (take n (ranking row)) @ replicate (5 - n) (- 1)) ! s"
      using s nA n5 by (simp add: slot_s nth_append length_ranking)
  qed
  have "filter (\<lambda>v. v \<noteq> - 1) (map real (take n (ranking row)) @ replicate (5 - n) (- 1)) =
      map real (take n (ranking row))"
    by (simp add: filter_map comp_def)
  then have count: "length (filter (\<lambda>v. v \<noteq> - 1) (out ! j)) = n"
    using nA by (simp only: row_eq) (simp add: length_ranking)
  have above: "acceptance_threshold < row ! (ranking row ! s)" if "1 \<le> s" "s < n" for s
  proof -
    from that have "s < accepted row" by (simp add: n_def)
    moreover from that nA have "s < length row" by simp
    ultimately show ?thesis by (simp add: ranking_accepted_iff)
  qed
  have desc: "row ! (ranking row ! s') \<le> row ! (ranking row ! s)" if "s \<le> s'" "s' < n" for s s'
    using that nA by (intro ranking_descending) simp_all
  from out row_eq count above desc show ?thesis by blast
qed

theorem get_best_anchor_accepted_slots_witness:
  "([(1, 1/8), (1, 1), (1, 1/2)] :: (real \<times> real) list) \<noteq> [] \<and> (0::nat) < length [(1/2, 1/2, 1, 1 :: real)]
   \<and> accepted (overlap compute_iou [(1/2, 1/2, 1, 1)] [(1, 1/8), (1, 1), (1, 1/2)] 1 1 ! 0) = 2
   \<and> get_best_anchor compute_iou [(1/2, 1/2, 1, 1)] [(1, 1/8), (1, 1), (1, 1/2)] 1 1 =
        Inr [[1, 2, - 1, - 1, - 1]]"
proof -
  let ?ys = "[(1/2, 1/2, 1, 1)] :: box list"
  let ?as = "[(1, 1/8), (1, 1), (1, 1/2)] :: (real \<times> real) list"
  have ne: "?as \<noteq> []" by simp
  have j: "(0::nat) < length ?ys" by simp
  have acc: "accepted (overlap compute_iou ?ys ?as 1 1 ! 0) = 2" by code_simp
  then have few: "accepted (overlap compute_iou ?ys ?as 1 1 ! 0) < 5" by simp
  have rk: "ranking (overlap compute_iou ?ys ?as 1 1 ! 0) = [1, 2, 0]" by code_simp
  from get_best_anchor_accepted_slots [OF ne j few]
  obtain out where "get_best_anchor compute_iou ?ys ?as 1 1 = Inr out"
    and "out ! 0 = map real (take (max 1 (accepted (overlap compute_iou ?ys ?as 1 1 ! 0)))
            (ranking (overlap compute_iou ?ys ?as 1 1 ! 0)))
          @ replicate (5 - max 1 (accepted (overlap compute_iou ?ys ?as 1 1 ! 0))) (- 1)"
    by blast
  then have "get_best_anchor compute_iou ?ys ?as 1 1 = Inr out" and "out ! 0 = [1, 2, - 1, - 1, - 1]"
    by (simp_all only: acc rk) (simp_all add: eval_nat_numeral)
  moreover have "get_best_anchor compute_iou ?ys ?as 1 1 = Inr [[1, 2, - 1, - 1, - 1]]"
    by code_simp
  ultimately show ?thesis using ne j acc by simp
qed

text \<open>
  The claim C4 as stated counts \<open>min (k_accepted + 1) 5\<close> slots other than \<open>-1\<close>. One box
  of size \<open>1 \<times> 1\<close> and three anchors whose overlaps with it are \<open>1/8, 1, 1/2\<close> give
  \<open>k_accepted = 2\<close> and the assignment \<open>[1, 2, -1, -1, -1]\<close>: two such slots, not three.
\<close>

theorem get_best_anchor_count_counterexample:
  "accepted (overlap compute_iou [(1/2, 1/2, 1, 1)] [(1, 1/8), (1, 1), (1, 1/2)] 1 1 ! 0) = 2
   \<and> get_best_anchor compute_iou [(1/2, 1/2, 1, 1)] [(1, 1/8), (1, 1), (1, 1/2)] 1 1 =
        Inr [[1, 2, - 1, - 1, - 1]]
   \<and> length (filter (\<lambda>v. v \<noteq> - 1) [1, 2, - 1, - 1, - 1 :: real]) \<noteq> min (2 + 1) 5"
  by code_simp

text \<open>
  Claim C5. Every slot of every assignment that \<open>get_best_anchor\<close> returns is an integer
  value, and it is either \<open>-1\<close> or an index of the catalog, from 0 up to but not including
  the number of anchors. (The tensor returned is the integer tensor \<open>iou_index\<close> cast to
  \<open>float32\<close>.)
\<close>

theorem get_best_anchor_slot_values:
  assumes "get_best_anchor iou y_true anchors width height = Inr out"
  shows "\<forall>row \<in> set out. \<forall>v \<in> set row.
           \<exists>i :: int. v = real_of_int i \<and> (i = - 1 \<or> (0 \<le> i \<and> i < int (length anchors)))"
proof (intro ballI)
  fix row v
  assume "row \<in> set out" and v: "v \<in> set row"
  then obtain j where j': "j < length out" and row: "row = out ! j"
    by (auto simp: in_set_conv_nth)
  have j: "j < length y_true"
    using j' get_best_anchor_shape(1) [OF assms] by simp
  from v obtain s where s': "s < length row" and vs: "v = row ! s"
    by (auto simp: in_set_conv_nth)
  have s: "s < 5"
    using s' row get_best_anchor_shape(2) [OF assms j] by simp
  let ?r = "overlap iou y_true anchors width height ! j"
  let ?k = "num_k (length anchors) (length y_true) (iou_raw iou y_true anchors width height)"
  have ne: "anchors \<noteq> []" using assms by (rule get_best_anchor_Inr_anchors)
  have kA: "?k \<le> int (length anchors)" using ne by (rule num_k_bounds)
  have val: "v = (if int s < ?k then real_of_int (slot ?r s) else - 1)"
    using get_best_anchor_slot [OF assms j s] by (simp add: vs row)
  show "\<exists>i :: int. v = real_of_int i \<and> (i = - 1 \<or> (0 \<le> i \<and> i < int (length anchors)))"
  proof (cases "int s < ?k")
    case True
    have lr: "length ?r = length anchors" using j by (rule length_overlap_nth)
    with True kA have "s < length ?r" by simp
    then have "ranking ?r ! s < length anchors" using ranking_less [of s ?r] lr by simp
    then have "slot ?r s = - 1 \<or> (0 \<le> slot ?r s \<and> slot ?r s < int (length anchors))"
      by (simp add: slot_def)
    moreover have "v = real_of_int (slot ?r s)" using val True by simp
    ultimately show ?thesis by blast
  next
    case False
    then have "v = real_of_int (- 1)" using val by simp
    then show ?thesis by blast
  qed
qed

theorem get_best_anchor_slot_values_witness:
  "get_best_anchor compute_iou [(1/2, 1/2, 1, 1), (0, 0, 1/8, 1)]
        [(1, 1/8), (1, 1), (1, 1/2)] 1 1 =
        Inr [[1, 2, - 1, - 1, - 1], [1, - 1, - 1, - 1, - 1]]
   \<and> (\<exists>i :: int. (2::real) = real_of_int i \<and> (i = - 1 \<or> (0 \<le> i \<and> i < 3)))"
proof -
  let ?ys = "[(1/2, 1/2, 1, 1), (0, 0, 1/8, 1)] :: box list"
  let ?as = "[(1, 1/8), (1, 1), (1, 1/2)] :: (real \<times> real) list"
  have res: "get_best_anchor compute_iou ?ys ?as 1 1 =
      Inr [[1, 2, - 1, - 1, - 1], [1, - 1, - 1, - 1, - 1]]"
    by code_simp
  from get_best_anchor_slot_values [OF res]
  have "\<exists>i :: int. (2::real) = real_of_int i \<and> (i = - 1 \<or> (0 \<le> i \<and> i < int (length ?as)))"
    by simp
  then have "\<exists>i :: int. (2::real) = real_of_int i \<and> (i = - 1 \<or> (0 \<le> i \<and> i < 3))"
    by simp
  with res show ?thesis by blast
qed

subsection \<open>Independence of the box centres\<close>

lemma compute_iou_same_centre:
  assumes "0 \<le> w" "0 \<le> h" "0 \<le> aw" "0 \<le> ah"
  shows "compute_iou (x, y, w, h) (x, y, aw, ah) =
     (let intersection = min w aw * min h ah;
          union = w * h + aw * ah - intersection
      in if union = 0 then 0 else intersection / union)"
proof -
  have iw: "max 0 (min (x + w / 2) (x + aw / 2) - max (x - w / 2) (x - aw / 2)) = min w aw"
    using assms by (simp add: min_def max_def)
  have ih: "max 0 (min (y + h / 2) (y + ah / 2) - max (y - h / 2) (y - ah / 2)) = min h ah"
    using assms by (simp add: min_def max_def)
  show ?thesis
    by (simp only: compute_iou_def prod.case Let_def iw ih)
qed





subsection \<open>Dependence on the box centres in \<open>float32\<close>\<close>

lemma pow2_pos: "0 < pow2 e"
  by (simp add: pow2_def)

lemma pow2_Suc: "pow2 (e + 1) = 2 * pow2 e"
proof (cases "0 \<le> e")
  case True
  then have "nat (e + 1) = Suc (nat e)" by simp
  with True show ?thesis by (simp add: pow2_def)
next
  case False
  then have "nat (- e) = Suc (nat (- (e + 1)))" by simp
  with False show ?thesis by (simp add: pow2_def)
qed

lemma pow2_pred: "2 * pow2 (e - 1) = pow2 e"
  using pow2_Suc [of "e - 1"] by simp

lemma binade_bounds:
  "1 / 2 ^ fuel \<le> x \<Longrightarrow> x < 2 ^ Suc fuel \<Longrightarrow>
   pow2 (binade fuel x) \<le> x \<and> x < 2 * pow2 (binade fuel x)"
proof (induction fuel arbitrary: x)
  case 0
  then show ?case by (simp add: pow2_def)
next
  case (Suc fuel)
  show ?case
  proof (cases "2 \<le> x")
    case True
    have "1 / 2 ^ fuel \<le> (1::real)" by (simp add: field_simps)
    also have "1 \<le> x / 2" using True by simp
    finally have lo: "1 / 2 ^ fuel \<le> x / 2" .
    have hi: "x / 2 < 2 ^ Suc fuel" using Suc.prems(2) by simp
    from Suc.IH [OF lo hi] True show ?thesis
      by (simp add: pow2_Suc)
  next
    case False
    show ?thesis
    proof (cases "x < 1")
      case True
      have lo: "1 / 2 ^ fuel \<le> 2 * x" using Suc.prems(1) by (simp add: field_simps)
      have "2 * x < 2" using True by simp
      also have "(2::real) \<le> 2 ^ Suc fuel" by (simp add: one_le_power)
      finally have hi: "2 * x < 2 ^ Suc fuel" .
      from Suc.IH [OF lo hi] have "pow2 (binade fuel (2 * x)) \<le> 2 * x"
        and "2 * x < 2 * pow2 (binade fuel (2 * x))" by simp_all
      then have "2 * pow2 (binade fuel (2 * x) - 1) \<le> 2 * x"
        and "2 * x < 2 * (2 * pow2 (binade fuel (2 * x) - 1))"
        by (simp_all only: pow2_pred)
      with True False show ?thesis by simp
    next
      case False
      with \<open>\<not> 2 \<le> x\<close> show ?thesis by (simp add: pow2_def)
    qed
  qed
qed











section \<open>Properties of the instance padder\<close>

lemma pad_max_instances_long:
  "0 \<le> instances \<Longrightarrow> instances < int (length value) \<Longrightarrow>
   pad_max_instances value instances pad_value = take (nat instances) value"
  by (simp add: pad_max_instances_def slice_stop_def)

lemma pad_max_instances_short:
  "int (length value) \<le> instances \<Longrightarrow>
   pad_max_instances value instances pad_value =
     value @ replicate (nat instances - length value) pad_value"
proof -
  assume le: "int (length value) \<le> instances"
  then have "nat (instances - int (length value)) = nat instances - length value"
    by linarith
  with le show ?thesis
    by (simp add: pad_max_instances_def)
qed

lemma pad_max_instances_exact:
  "int (length value) = instances \<Longrightarrow> pad_max_instances value instances pad_value = value"
  by (simp add: pad_max_instances_def)

lemma length_pad_max_instances:
  "0 \<le> instances \<Longrightarrow> length (pad_max_instances value instances pad_value) = nat instances"
proof (cases "instances < int (length value)")
  case True
  assume "0 \<le> instances"
  with True show ?thesis
    by (simp add: pad_max_instances_long)
next
  case False
  then have "int (length value) \<le> instances" by simp
  then show ?thesis
    by (simp add: pad_max_instances_short)
qed

text \<open>
  Claim C6. For every input sequence, every \<open>instances > 0\<close> and every pad value, the
  result of \<open>pad_max_instances\<close> has length exactly \<open>instances\<close>; an input longer than
  \<open>instances\<close> is cut to its first \<open>instances\<close> items, unchanged and in order; a shorter
  input is followed by exactly \<open>instances - length\<close> copies of the pad value.
\<close>

theorem pad_max_instances_contract:
  assumes "0 < instances"
  shows "length (pad_max_instances value instances pad_value) = nat instances
       \<and> (instances < int (length value) \<longrightarrow>
            pad_max_instances value instances pad_value = take (nat instances) value)
       \<and> (int (length value) < instances \<longrightarrow>
            pad_max_instances value instances pad_value =
              value @ replicate (nat instances - length value) pad_value)"
  using assms
  by (simp add: length_pad_max_instances pad_max_instances_long pad_max_instances_short)

theorem pad_max_instances_contract_witness:
  "(0::int) < 3
   \<and> pad_max_instances [10, 20, 30, 40, 50 :: int] 3 0 = [10, 20, 30]
   \<and> pad_max_instances [10 :: int] 3 0 = [10, 0, 0]"
proof -
  have pos: "(0::int) < 3" by simp
  have long: "pad_max_instances [10, 20, 30, 40, 50 :: int] 3 0 = [10, 20, 30]"
    using pad_max_instances_contract [OF pos, of "[10, 20, 30, 40, 50 :: int]" 0]
    by (simp add: numeral_3_eq_3)
  have short: "pad_max_instances [10 :: int] 3 0 = [10, 0, 0]"
    using pad_max_instances_contract [OF pos, of "[10 :: int]" 0]
    by (simp add: numeral_3_eq_3 numeral_2_eq_2)
  from pos long short show ?thesis by simp
qed

text \<open>
  Claim C9. On a sequence whose length is already \<open>instances\<close>, \<open>pad_max_instances\<close>
  returns the sequence unchanged; and for every sequence and every \<open>instances \<ge> 0\<close>,
  applying it twice with the same count and pad value is the same as applying it once.
\<close>

theorem pad_max_instances_idempotent:
  "(int (length value) = instances \<longrightarrow>
      pad_max_instances value instances pad_value = value)
   \<and> (0 \<le> instances \<longrightarrow>
      pad_max_instances (pad_max_instances value instances pad_value) instances pad_value =
        pad_max_instances value instances pad_value)"
proof (intro conjI impI)
  assume "int (length value) = instances"
  then show "pad_max_instances value instances pad_value = value"
    by (rule pad_max_instances_exact)
next
  assume nonneg: "0 \<le> instances"
  have "int (length (pad_max_instances value instances pad_value)) = instances"
    using nonneg by (simp add: length_pad_max_instances)
  then show "pad_max_instances (pad_max_instances value instances pad_value) instances pad_value =
        pad_max_instances value instances pad_value"
    by (rule pad_max_instances_exact)
qed

theorem pad_max_instances_idempotent_witness:
  "int (length [7, 8, 9 :: int]) = 3 \<and> (0::int) \<le> 3
   \<and> pad_max_instances [7, 8, 9 :: int] 3 0 = [7, 8, 9]
   \<and> pad_max_instances (pad_max_instances [7, 8, 9 :: int] 3 0) 3 0 =
       pad_max_instances [7, 8, 9 :: int] 3 0"
  using pad_max_instances_idempotent [of "[7, 8, 9 :: int]" 3 0]
  by simp

text \<open>
  Claim C10. Round trip: a sequence of length \<open>n\<close> with \<open>n\<close> at most \<open>instances\<close>, padded to
  \<open>instances\<close> and then cut back with count \<open>n\<close>, is the original sequence, items and
  order unchanged.
\<close>

theorem pad_max_instances_round_trip:
  assumes "int (length value) \<le> instances"
  shows "pad_max_instances (pad_max_instances value instances pad_value)
           (int (length value)) pad_value' = value"
proof (cases "int (length value) = instances")
  case True
  then show ?thesis
    by (simp add: pad_max_instances_exact)
next
  case False
  with assms have lt: "int (length value) < instances" by simp
  have padded: "pad_max_instances value instances pad_value =
      value @ replicate (nat instances - length value) pad_value"
    using assms by (rule pad_max_instances_short)
  have "length value < nat instances"
    using lt by linarith
  then have "length value < length (value @ replicate (nat instances - length value) pad_value)"
    by simp
  then have longer: "int (length value) <
      int (length (value @ replicate (nat instances - length value) pad_value))"
    by (rule iffD2 [OF of_nat_less_iff])
  have "pad_max_instances (value @ replicate (nat instances - length value) pad_value)
      (int (length value)) pad_value' =
      take (nat (int (length value))) (value @ replicate (nat instances - length value) pad_value)"
    using longer by (rule pad_max_instances_long [rotated]) simp
  with padded show ?thesis by simp
qed

theorem pad_max_instances_round_trip_witness:
  "int (length [4, 5 :: int]) \<le> 6
   \<and> pad_max_instances [4, 5 :: int] 6 0 = [4, 5, 0, 0, 0, 0]
   \<and> pad_max_instances (pad_max_instances [4, 5 :: int] 6 0) (int (length [4, 5 :: int])) 1 = [4, 5]"
proof -
  have le: "int (length [4, 5 :: int]) \<le> 6" by simp
  have padded: "pad_max_instances [4, 5 :: int] 6 0 = [4, 5, 0, 0, 0, 0]"
    by (simp add: pad_max_instances_def eval_nat_numeral)
  from le padded pad_max_instances_round_trip [OF le, of 0 1] show ?thesis
    by simp
qed

section \<open>The pipeline on zero boxes\<close>

lemma pad_max_instances_Nil:
  "pad_max_instances [] instances pad_value = replicate (nat instances) pad_value"
  by (simp add: pad_max_instances_def slice_stop_def)

lemma iou_raw_no_boxes:
  "iou_raw iou [] anchors width height = replicate (length anchors) []"
  by (simp add: iou_raw_eq map_replicate_const)

text \<open>
  Claim C7. With zero boxes and a non-empty anchor catalog nothing fails: \<open>iou_raw\<close> has
  no column, the overlap matrix and the table of assignments have no row, and
  \<open>pad_max_instances\<close> of the empty table is \<open>instances\<close> copies of the pad item.
\<close>

theorem get_best_anchor_no_boxes:
  assumes "anchors \<noteq> []"
  shows "iou_raw iou [] anchors width height = replicate (length anchors) []
       \<and> overlap iou [] anchors width height = []
       \<and> get_best_anchor iou [] anchors width height = Inr []
       \<and> pad_max_instances ([] :: real list list) instances pad_value =
           replicate (nat instances) pad_value"
  using get_best_anchor_rows [OF assms, of iou "[]" width height]
  by (simp add: iou_raw_no_boxes overlap_eq pad_max_instances_Nil)

theorem get_best_anchor_no_boxes_witness:
  "([(10, 13), (16, 30), (33, 23)] :: (real \<times> real) list) \<noteq> []
   \<and> get_best_anchor compute_iou [] [(10, 13), (16, 30), (33, 23)] 416 416 = Inr []
   \<and> pad_max_instances ([] :: real list list) 3 [0, 0, 0, 0, 0] =
        [[0, 0, 0, 0, 0], [0, 0, 0, 0, 0], [0, 0, 0, 0, 0]]"
proof -
  have ne: "([(10, 13), (16, 30), (33, 23)] :: (real \<times> real) list) \<noteq> []" by simp
  from get_best_anchor_no_boxes [OF ne, of compute_iou 416 416 3 "[0, 0, 0, 0, 0]"] ne
  show ?thesis by (simp add: eval_nat_numeral)
qed

end
